theory Spec2Isabelle
  imports Main
begin

section \<open>Python strings\<close>

text \<open>
  A Python \<open>str\<close> is a sequence of Unicode code points. A code point is modelled as a
  natural number and a string as the list of its code points, so that \<open>length\<close> counts
  what \<open>len\<close> counts. \<open>lit\<close> turns an ASCII literal of the source into such a string.
\<close>

type_synonym str = "nat list"

definition lit :: "string \<Rightarrow> str" where
  "lit s = map of_char s"

text \<open>
  The characters that \<open>\s\<close> matches in a \<open>str\<close> pattern and that \<open>str.strip()\<close>
  removes: the ASCII white space \<open>\t \n \v \f \r\<close>, the separators \<open>0x1C\<close> to \<open>0x1F\<close>,
  the space, and the Unicode white space outside ASCII.
\<close>

definition isspace :: "nat \<Rightarrow> bool" where
  "isspace c \<longleftrightarrow>
     (9 \<le> c \<and> c \<le> 13) \<or> (28 \<le> c \<and> c \<le> 32) \<or> c = 133 \<or> c = 160 \<or> c = 5760 \<or>
     (8192 \<le> c \<and> c \<le> 8202) \<or> c = 8232 \<or> c = 8233 \<or> c = 8239 \<or> c = 8287 \<or> c = 12288"

text \<open>The character class \<open>[0-9a-fA-F]\<close>.\<close>

definition ishex :: "nat \<Rightarrow> bool" where
  "ishex c \<longleftrightarrow> (48 \<le> c \<and> c \<le> 57) \<or> (97 \<le> c \<and> c \<le> 102) \<or> (65 \<le> c \<and> c \<le> 70)"

section \<open>The pattern and its matcher\<close>

text \<open>
  The pattern of the source is
  \<^verbatim>\<open>HF_ADDR\s+PC=0x([0-9a-fA-F]{8})\s+LR=0x([0-9a-fA-F]{8})\<close>.
  It is a sequence of three kinds of items: a literal, the greedy repetition \<open>\s+\<close>, and a
  capturing group of exactly \<open>n\<close> hexadecimal digits.
\<close>

datatype re_item = Literal str | WhitePlus | HexGroup nat

definition pattern :: "re_item list" where
  "pattern =
     [Literal (lit ''HF_ADDR''), WhitePlus, Literal (lit ''PC=0x''), HexGroup 8,
      WhitePlus, Literal (lit ''LR=0x''), HexGroup 8]"

text \<open>
  A backtracking matcher as a list of successes: \<open>submatches p s\<close> lists, in the order in
  which the regular-expression engine tries them, the ways in which \<open>p\<close> matches a prefix of
  \<open>s\<close>, each as the captured groups and the text left after the match. \<open>\s+\<close> is greedy:
  it first takes the whole run of white space, then gives characters back one at a time,
  keeping at least one.
\<close>

fun submatches :: "re_item list \<Rightarrow> str \<Rightarrow> (str list \<times> str) list" where
  "submatches [] s = [([], s)]"
| "submatches (Literal l # p) s =
     (if take (length l) s = l then submatches p (drop (length l) s) else [])"
| "submatches (WhitePlus # p) s =
     concat (map (\<lambda>k. submatches p (drop k s)) (rev [1..<Suc (length (takeWhile isspace s))]))"
| "submatches (HexGroup n # p) s =
     (if n \<le> length s \<and> list_all ishex (take n s)
      then map (\<lambda>(gs, r). (take n s # gs, r)) (submatches p (drop n s))
      else [])"

text \<open>The match of the pattern that starts at the beginning of \<open>s\<close>: the first success.\<close>

definition match_at :: "str \<Rightarrow> (str list \<times> str) option" where
  "match_at s = (case submatches pattern s of [] \<Rightarrow> None | m # _ \<Rightarrow> Some m)"

lemma submatches_rest: "(gs, r) \<in> set (submatches p s) \<Longrightarrow> length r \<le> length s"
proof (induction p s arbitrary: gs r rule: submatches.induct)
  case (1 s)
  then show ?case by simp
next
  case (2 l p s)
  then show ?case by (fastforce split: if_splits)
next
  case (3 p s)
  then show ?case by fastforce
next
  case (4 n p s)
  then show ?case by (fastforce split: if_splits)
qed

lemma submatches_Literal_mem:
  assumes "m \<in> set (submatches (Literal l # p) s)"
  shows "take (length l) s = l" and "m \<in> set (submatches p (drop (length l) s))"
  using assms by (cases "take (length l) s = l"; simp)+

lemma match_at_mem:
  assumes "match_at s = Some m"
  shows "m \<in> set (submatches pattern s)"
  using assms by (cases "submatches pattern s") (simp_all add: match_at_def)

lemma match_at_shorter:
  assumes "match_at s = Some (gs, r)"
  shows "length r < length s"
proof -
  define l where "l = lit ''HF_ADDR''"
  obtain p where p: "pattern = Literal l # p"
    by (simp add: pattern_def l_def)
  have mem: "(gs, r) \<in> set (submatches (Literal l # p) s)"
    using match_at_mem [OF assms] by (simp only: p)
  have "length (take (length l) s) = length l"
    using submatches_Literal_mem(1) [OF mem] by simp
  then have "length l \<le> length s"
    by simp
  moreover have "0 < length l"
    by (simp add: lit_def l_def)
  moreover have "length r \<le> length (drop (length l) s)"
    using submatches_Literal_mem(2) [OF mem] by (rule submatches_rest)
  ultimately show ?thesis by (simp del: length_greater_0_conv)
qed

text \<open>
  \<open>pattern.finditer(log_text)\<close>: the non-overlapping matches from left to right, each as
  its list of groups. The scan tries every start position in turn; after a match it goes on
  at the end of that match.
\<close>

function finditer :: "str \<Rightarrow> str list list" where
  "finditer [] = []"
| "finditer (c # cs) =
     (case match_at (c # cs) of
        None \<Rightarrow> finditer cs
      | Some (gs, rest) \<Rightarrow> gs # finditer rest)"
  by pat_completeness auto
termination
  by (relation "measure length") (auto dest: match_at_shorter)

section \<open>Parsing and formatting numbers\<close>

datatype py_error = ValueError | OSError

text \<open>
  \<open>int(s, 16)\<close> on a string of hexadecimal digits: the digits are accumulated from the
  left, and a string that is empty or holds another character raises \<open>ValueError\<close>.
  (Python's \<open>int\<close> also accepts a sign, surrounding white space, a \<open>0x\<close> prefix,
  underscores and non-ASCII digits. The program calls it on captured groups only, which
  hold none of these.) The result is never negative, so it is a natural number.
\<close>

definition digit16 :: "nat \<Rightarrow> nat option" where
  "digit16 c =
     (if 48 \<le> c \<and> c \<le> 57 then Some (c - 48)
      else if 97 \<le> c \<and> c \<le> 102 then Some (c - 87)
      else if 65 \<le> c \<and> c \<le> 70 then Some (c - 55)
      else None)"

fun int16_from :: "nat \<Rightarrow> str \<Rightarrow> py_error + nat" where
  "int16_from acc [] = Inr acc"
| "int16_from acc (c # cs) =
     (case digit16 c of
        None \<Rightarrow> Inl ValueError
      | Some d \<Rightarrow> int16_from (16 * acc + d) cs)"

definition int16 :: "str \<Rightarrow> py_error + nat" where
  "int16 s = (if s = [] then Inl ValueError else int16_from 0 s)"

text \<open>\<open>str(n)\<close> for a length: the decimal digits.\<close>

function decimal :: "nat \<Rightarrow> str" where
  "decimal n = (if n < 10 then [48 + n] else decimal (n div 10) @ [48 + n mod 10])"
  by pat_completeness auto
termination
  by (relation "measure id") auto

declare decimal.simps [simp del]

text \<open>
  The format specification \<open>08X\<close> of a non-negative integer: its hexadecimal digits in
  upper case, filled with zeros on the left up to a width of 8 (a longer number is not cut).
\<close>

definition upper_digit :: "nat \<Rightarrow> nat" where
  "upper_digit d = (if d < 10 then 48 + d else 55 + d)"

function hex_upper :: "nat \<Rightarrow> str" where
  "hex_upper n =
     (if n < 16 then [upper_digit n] else hex_upper (n div 16) @ [upper_digit (n mod 16)])"
  by pat_completeness auto
termination
  by (relation "measure id") auto

declare hex_upper.simps [simp del]

definition format_08X :: "nat \<Rightarrow> str" where
  "format_08X addr = replicate (8 - length (hex_upper addr)) 48 @ hex_upper addr"

text \<open>\<open>str.strip()\<close>: leading and trailing white space removed.\<close>

definition strip :: "str \<Rightarrow> str" where
  "strip s = rev (dropWhile isspace (rev (dropWhile isspace s)))"

section \<open>The program\<close>

text \<open>
  What the program reads from its environment. \<open>path_str a\<close> is \<open>str(Path(a))\<close>, the
  path in the form in which the program prints it and passes it on; \<open>is_file\<close> and
  \<open>read_text\<close> take a path in that form. \<open>read_text\<close> decodes with
  \<open>errors='ignore'\<close>, so that every file content gives a string; reading a regular
  file is taken to succeed. \<open>check_output\<close> is
  the run of a child process with its standard error redirected into its standard
  output: either it exits with a status and the captured output, or it cannot be started.
\<close>

datatype completed = Exited int str | NotStarted

record world =
  path_str :: "str \<Rightarrow> str"
  is_file :: "str \<Rightarrow> bool"
  read_text :: "str \<Rightarrow> str"
  check_output :: "str list \<Rightarrow> completed"

text \<open>
  What the program does to its environment: the text written to the two streams, the
  files read and the commands run, each in order.
\<close>

record effects =
  stdout :: str
  stderr :: str
  files_read :: "str list"
  commands :: "str list list"

definition no_effects :: effects where
  "no_effects = \<lparr>stdout = [], stderr = [], files_read = [], commands = []\<rparr>"

text \<open>\<open>print(s)\<close> and \<open>print(s, file=sys.stderr)\<close> write \<open>s\<close> and a line feed.\<close>

definition print_out :: "str \<Rightarrow> effects \<Rightarrow> effects" where
  "print_out s e = e\<lparr>stdout := stdout e @ s @ [10]\<rparr>"

definition print_err :: "str \<Rightarrow> effects \<Rightarrow> effects" where
  "print_err s e = e\<lparr>stderr := stderr e @ s @ [10]\<rparr>"

text \<open>
  How \<open>main\<close> ends: it returns an exit status, or an exception leaves it.
\<close>

datatype ending = Returned int | Raised py_error

text \<open>
  The first loop of \<open>main\<close>: every match is unpacked into its two groups, and both are
  parsed and appended to \<open>addrs\<close>, the program counter first.
\<close>

fun collect :: "str list list \<Rightarrow> nat list \<Rightarrow> py_error + nat list" where
  "collect [] addrs = Inr addrs"
| "collect (groups # ms) addrs =
     (case groups of
        [pc_hex, lr_hex] \<Rightarrow>
          (case int16 pc_hex of
             Inl e \<Rightarrow> Inl e
           | Inr pc \<Rightarrow>
               (case int16 lr_hex of
                  Inl e \<Rightarrow> Inl e
                | Inr lr \<Rightarrow> collect ms (addrs @ [pc] @ [lr])))
      | _ \<Rightarrow> Inl ValueError)"

text \<open>The second loop: de-duplication with the set \<open>seen\<close>, order preserved.\<close>

fun dedup :: "nat list \<Rightarrow> nat set \<Rightarrow> nat list \<Rightarrow> nat list" where
  "dedup [] seen unique_addrs = unique_addrs"
| "dedup (a # addrs) seen unique_addrs =
     (if a \<notin> seen then dedup addrs (insert a seen) (unique_addrs @ [a])
      else dedup addrs seen unique_addrs)"

text \<open>Both loops: from the text of the log to \<open>unique_addrs\<close>.\<close>

definition unique_addrs_of :: "str \<Rightarrow> py_error + nat list" where
  "unique_addrs_of log_text =
     (case collect (finditer log_text) [] of
        Inl e \<Rightarrow> Inl e
      | Inr addrs \<Rightarrow> Inr (dedup addrs {} []))"

text \<open>
  The nested function \<open>addr2line\<close>: it runs the resolver on one address and returns the
  stripped output, or the error marker when the resolver exits with a non-zero status
  (\<open>CalledProcessError\<close>). A resolver that cannot be started raises an \<open>OSError\<close>, which
  nothing catches.
\<close>

definition cmd :: "str \<Rightarrow> nat \<Rightarrow> str list" where
  "cmd elf_path addr =
     [lit ''arm-none-eabi-addr2line'', lit ''-f'', lit ''-C'', lit ''-e'', elf_path,
      lit ''0x'' @ format_08X addr]"

definition addr2line :: "world \<Rightarrow> str \<Rightarrow> nat \<Rightarrow> py_error + str" where
  "addr2line w elf_path addr =
     (case check_output w (cmd elf_path addr) of
        NotStarted \<Rightarrow> Inl OSError
      | Exited status out \<Rightarrow>
          if status \<noteq> 0 then Inr (lit ''<addr2line error: '' @ strip out @ lit ''>'')
          else Inr (strip out))"

text \<open>The last loop: one entry of the report for each address.\<close>

fun report :: "world \<Rightarrow> str \<Rightarrow> nat list \<Rightarrow> effects \<Rightarrow> ending \<times> effects" where
  "report w elf_path [] e = (Returned 0, e)"
| "report w elf_path (addr # rest) e =
     (let e1 = print_out (lit ''0x'' @ format_08X addr @ lit '':'') e;
          e2 = e1\<lparr>commands := commands e1 @ [cmd elf_path addr]\<rparr>
      in case addr2line w elf_path addr of
           Inl err \<Rightarrow> (Raised err, e2)
         | Inr res \<Rightarrow> report w elf_path rest (print_out [] (print_out res e2)))"

text \<open>
  \<open>main\<close>. \<open>sys.argv\<close> is never empty: it is the name of the program, \<open>prog\<close>, and
  the arguments \<open>args\<close>, so that \<open>len(sys.argv) != 3\<close> is \<open>length args \<noteq> 2\<close>.
\<close>

definition main :: "world \<Rightarrow> str \<Rightarrow> str list \<Rightarrow> ending \<times> effects" where
  "main w prog args =
     (case args of
        [arg1, arg2] \<Rightarrow>
          (let elf_path = path_str w arg1; log_path = path_str w arg2 in
           if \<not> is_file w elf_path
           then (Returned 1, print_err (lit ''ELF not found: '' @ elf_path) no_effects)
           else if \<not> is_file w log_path
           then (Returned 1, print_err (lit ''Log not found: '' @ log_path) no_effects)
           else
             (let e = no_effects\<lparr>files_read := [log_path]\<rparr> in
              case unique_addrs_of (read_text w log_path) of
                Inl err \<Rightarrow> (Raised err, e)
              | Inr unique_addrs \<Rightarrow>
                  if unique_addrs = []
                  then (Returned 0, print_err (lit ''No HF_ADDR lines found in log.'') e)
                  else report w elf_path unique_addrs
                         (print_out
                            (lit ''Found '' @ decimal (length unique_addrs) @
                             lit '' unique addresses. Resolving with addr2line...'' @ [10])
                            e)))
      | _ \<Rightarrow>
          (Returned 1,
           print_err (lit ''Usage: '' @ prog @ lit '' <firmware.elf> <log-file>'') no_effects))"

section \<open>What the specification says\<close>

text \<open>
  The de-duplication of the specification: of a sequence, the elements that do not occur
  at an earlier position, in the order of the sequence.
\<close>

definition first_occurrences :: "nat list \<Rightarrow> nat list" where
  "first_occurrences xs =
     map (\<lambda>i. xs ! i) (filter (\<lambda>i. xs ! i \<notin> set (take i xs)) [0..<length xs])"

text \<open>
  An occurrence of the pattern at the beginning of \<open>s\<close>, in the words of the
  specification: the token \<open>HF_ADDR\<close>, white space, \<open>PC=0x\<close> and 8 hexadecimal digits
  \<open>pc\<close>, white space, \<open>LR=0x\<close> and 8 hexadecimal digits \<open>lr\<close>; \<open>rest\<close> is the text
  after it.
\<close>

definition occurrence :: "str \<Rightarrow> str \<Rightarrow> str \<Rightarrow> str \<Rightarrow> bool" where
  "occurrence s pc lr rest \<longleftrightarrow>
     (\<exists>ws1 ws2.
        s = lit ''HF_ADDR'' @ ws1 @ lit ''PC=0x'' @ pc @ ws2 @ lit ''LR=0x'' @ lr @ rest \<and>
        ws1 \<noteq> [] \<and> list_all isspace ws1 \<and> length pc = 8 \<and> list_all ishex pc \<and>
        ws2 \<noteq> [] \<and> list_all isspace ws2 \<and> length lr = 8 \<and> list_all ishex lr)"

text \<open>
  The value of a string of hexadecimal digits as a base-16 numeral: the digit at position
  \<open>i\<close> counts \<open>16\<close> to the power of the number of digits after it.
\<close>

definition digit_value :: "nat \<Rightarrow> nat" where
  "digit_value c = (if c \<le> 57 then c - 48 else if c \<le> 70 then c - 55 else c - 87)"

definition hex_value :: "str \<Rightarrow> nat" where
  "hex_value s = (\<Sum>i\<leftarrow>[0..<length s]. digit_value (s ! i) * 16 ^ (length s - Suc i))"

text \<open>
  The sequence of the specification: for each match in scan order, the value of the first
  group (the program counter) and then the value of the second (the link register).
\<close>

definition address_sequence :: "str \<Rightarrow> nat list" where
  "address_sequence log_text =
     concat (map (\<lambda>groups. [hex_value (groups ! 0), hex_value (groups ! 1)])
       (finditer log_text))"

text \<open>An upper-case hexadecimal digit, and the two case mappings on ASCII letters.\<close>

definition is_upper_hex :: "nat \<Rightarrow> bool" where
  "is_upper_hex c \<longleftrightarrow> (48 \<le> c \<and> c \<le> 57) \<or> (65 \<le> c \<and> c \<le> 70)"






section \<open>A sample environment\<close>

text \<open>
  An environment for the sample runs below: the files \<open>files\<close> exist, every file reads
  as \<open>log_text\<close>, and the resolver fails on the address \<open>0x08001234\<close> and resolves every
  other address to \<open>main\<close> at \<open>main.c:42\<close>.
\<close>

definition sample_world :: "str list \<Rightarrow> str \<Rightarrow> world" where
  "sample_world files log_text =
     \<lparr>path_str = (\<lambda>a. a),
      is_file = (\<lambda>p. p \<in> set files),
      read_text = (\<lambda>p. log_text),
      check_output = (\<lambda>c.
        if lit ''0x08001234'' \<in> set c then Exited 1 (lit ''addr2line: bad address'' @ [10])
        else Exited 0 (lit ''main'' @ [10] @ lit ''main.c:42'' @ [10]))\<rparr>"

section \<open>The de-duplication loop\<close>

lemma dedup_append: "dedup xs seen acc = acc @ dedup xs seen []"
proof (induction xs arbitrary: seen acc)
  case Nil
  then show ?case by simp
next
  case (Cons a xs)
  show ?case
  proof (cases "a \<in> seen")
    case True
    then show ?thesis using Cons.IH [of seen acc] by simp
  next
    case False
    then show ?thesis
      using Cons.IH [of "insert a seen" "acc @ [a]"] Cons.IH [of "insert a seen" "[a]"]
      by simp
  qed
qed

lemma dedup_Cons:
  "dedup (a # xs) seen [] = (if a \<in> seen then dedup xs seen [] else a # dedup xs (insert a seen) [])"
  using dedup_append [of xs "insert a seen" "[a]"] by simp

lemma dedup_indices:
  "dedup xs seen [] =
     map (\<lambda>i. xs ! i) (filter (\<lambda>i. xs ! i \<notin> seen \<union> set (take i xs)) [0..<length xs])"
proof (induction xs arbitrary: seen)
  case Nil
  then show ?case by simp
next
  case (Cons a xs)
  let ?P = "\<lambda>i. (a # xs) ! i \<notin> seen \<union> set (take i (a # xs))"
  have upt: "[0..<length (a # xs)] = 0 # map Suc [0..<length xs]"
    by (simp add: upt_conv_Cons map_Suc_upt del: upt_Suc)
  have tl: "filter (?P \<circ> Suc) [0..<length xs] =
      filter (\<lambda>i. xs ! i \<notin> insert a seen \<union> set (take i xs)) [0..<length xs]"
    by (rule filter_cong) auto
  have "map (\<lambda>i. (a # xs) ! i) (filter ?P [0..<length (a # xs)]) =
      (if a \<in> seen then [] else [a]) @
      map (\<lambda>i. xs ! i) (filter (?P \<circ> Suc) [0..<length xs])"
    unfolding upt by (simp add: filter_map comp_def)
  also have "\<dots> = (if a \<in> seen then [] else [a]) @ dedup xs (insert a seen) []"
    unfolding tl by (simp only: Cons.IH [of "insert a seen"])
  also have "\<dots> = dedup (a # xs) seen []"
    by (simp add: dedup_Cons insert_absorb del: dedup.simps(2))
  finally show ?case by simp
qed

lemma dedup_first_occurrences: "dedup xs {} [] = first_occurrences xs"
  by (simp add: dedup_indices first_occurrences_def)

lemma dedup_set: "set (dedup xs seen []) = set xs - seen"
  by (induction xs arbitrary: seen) (auto simp: dedup_Cons simp del: dedup.simps(2))

lemma dedup_distinct: "distinct (dedup xs seen [])"
  by (induction xs arbitrary: seen) (auto simp: dedup_Cons dedup_set simp del: dedup.simps(2))

lemma dedup_of_distinct:
  "distinct xs \<Longrightarrow> set xs \<inter> seen = {} \<Longrightarrow> dedup xs seen [] = xs"
  by (induction xs arbitrary: seen) (auto simp: dedup_Cons simp del: dedup.simps(2))

section \<open>The matcher\<close>

lemma in_submatches_Nil: "(m \<in> set (submatches [] s)) = (m = ([], s))"
  by simp

lemma in_submatches_Literal:
  "(m \<in> set (submatches (Literal l # p) s)) = (\<exists>t. s = l @ t \<and> m \<in> set (submatches p t))"
proof
  assume "m \<in> set (submatches (Literal l # p) s)"
  then have "take (length l) s = l" and "m \<in> set (submatches p (drop (length l) s))"
    by (rule submatches_Literal_mem)+
  then have "s = l @ drop (length l) s \<and> m \<in> set (submatches p (drop (length l) s))"
    by (metis append_take_drop_id)
  then show "\<exists>t. s = l @ t \<and> m \<in> set (submatches p t)" ..
next
  assume "\<exists>t. s = l @ t \<and> m \<in> set (submatches p t)"
  then show "m \<in> set (submatches (Literal l # p) s)" by auto
qed

lemma le_length_takeWhile:
  "(k \<le> length (takeWhile P s)) = (k \<le> length s \<and> list_all P (take k s))"
proof (induction s arbitrary: k)
  case Nil
  then show ?case by simp
next
  case (Cons a s)
  then show ?case by (cases k) auto
qed

lemma set_submatches_WhitePlus:
  "set (submatches (WhitePlus # p) s) =
     (\<Union>k\<in>{1..length (takeWhile isspace s)}. set (submatches p (drop k s)))"
  by (simp add: atLeastLessThanSuc_atLeastAtMost del: upt_Suc)

lemma in_submatches_WhitePlus:
  "(m \<in> set (submatches (WhitePlus # p) s)) =
     (\<exists>ws t. s = ws @ t \<and> ws \<noteq> [] \<and> list_all isspace ws \<and> m \<in> set (submatches p t))"
proof
  assume "m \<in> set (submatches (WhitePlus # p) s)"
  then obtain k where k: "1 \<le> k" "k \<le> length (takeWhile isspace s)"
    and m: "m \<in> set (submatches p (drop k s))"
    unfolding set_submatches_WhitePlus by auto
  from k(2) have "k \<le> length s" "list_all isspace (take k s)"
    by (simp_all add: le_length_takeWhile)
  with k(1) m have "s = take k s @ drop k s \<and> take k s \<noteq> [] \<and> list_all isspace (take k s) \<and>
      m \<in> set (submatches p (drop k s))"
    by auto
  then show "\<exists>ws t. s = ws @ t \<and> ws \<noteq> [] \<and> list_all isspace ws \<and> m \<in> set (submatches p t)"
    by blast
next
  assume "\<exists>ws t. s = ws @ t \<and> ws \<noteq> [] \<and> list_all isspace ws \<and> m \<in> set (submatches p t)"
  then obtain ws t where s: "s = ws @ t" and ws: "ws \<noteq> []" "list_all isspace ws"
    and m: "m \<in> set (submatches p t)"
    by blast
  have "length ws \<le> length (takeWhile isspace s)"
    using ws(2) by (simp add: le_length_takeWhile s)
  moreover have "1 \<le> length ws"
    using ws(1) by (cases ws) simp_all
  moreover have "m \<in> set (submatches p (drop (length ws) s))"
    using m by (simp add: s)
  ultimately show "m \<in> set (submatches (WhitePlus # p) s)"
    unfolding set_submatches_WhitePlus by auto
qed

lemma in_submatches_HexGroup:
  "((gs, r) \<in> set (submatches (HexGroup n # p) s)) =
     (\<exists>h t gs'. s = h @ t \<and> length h = n \<and> list_all ishex h \<and> gs = h # gs' \<and>
        (gs', r) \<in> set (submatches p t))"
proof
  assume "(gs, r) \<in> set (submatches (HexGroup n # p) s)"
  then have n: "n \<le> length s" "list_all ishex (take n s)"
    and "(gs, r) \<in> (\<lambda>(gs, r). (take n s # gs, r)) ` set (submatches p (drop n s))"
    by (simp_all split: if_splits)
  then obtain gs' where "gs = take n s # gs'" "(gs', r) \<in> set (submatches p (drop n s))"
    by auto
  with n have "s = take n s @ drop n s \<and> length (take n s) = n \<and> list_all ishex (take n s) \<and>
      gs = take n s # gs' \<and> (gs', r) \<in> set (submatches p (drop n s))"
    by simp
  then show "\<exists>h t gs'. s = h @ t \<and> length h = n \<and> list_all ishex h \<and> gs = h # gs' \<and>
      (gs', r) \<in> set (submatches p t)"
    by blast
next
  assume "\<exists>h t gs'. s = h @ t \<and> length h = n \<and> list_all ishex h \<and> gs = h # gs' \<and>
      (gs', r) \<in> set (submatches p t)"
  then show "(gs, r) \<in> set (submatches (HexGroup n # p) s)"
    by force
qed

lemma in_submatches_pattern:
  "((gs, r) \<in> set (submatches pattern s)) = (\<exists>pc lr. gs = [pc, lr] \<and> occurrence s pc lr r)"
  unfolding pattern_def occurrence_def
  by (simp only: in_submatches_Literal in_submatches_WhitePlus in_submatches_HexGroup
      in_submatches_Nil prod.inject) (auto; blast)

lemma white_run_unique:
  assumes "list_all isspace ws" "list_all isspace ws'" "\<not> isspace c"
    and "ws @ c # t = ws' @ c # t'"
  shows "ws = ws' \<and> t = t'"
proof -
  have "takeWhile isspace (ws @ c # t) = ws" "takeWhile isspace (ws' @ c # t') = ws'"
    using assms(1-3) by (simp_all add: takeWhile_append2 list_all_iff)
  with assms(4) have "ws = ws'" by simp
  with assms(4) show ?thesis by simp
qed

lemma occurrence_unique:
  assumes "occurrence s pc lr r" "occurrence s pc' lr' r'"
  shows "pc = pc' \<and> lr = lr' \<and> r = r'"
proof -
  from assms(1) obtain ws1 ws2 where
    s: "s = lit ''HF_ADDR'' @ ws1 @ lit ''PC=0x'' @ pc @ ws2 @ lit ''LR=0x'' @ lr @ r"
    and w: "list_all isspace ws1" "list_all isspace ws2" and l: "length pc = 8" "length lr = 8"
    unfolding occurrence_def by blast
  from assms(2) obtain ws1' ws2' where
    s': "s = lit ''HF_ADDR'' @ ws1' @ lit ''PC=0x'' @ pc' @ ws2' @ lit ''LR=0x'' @ lr' @ r'"
    and w': "list_all isspace ws1'" "list_all isspace ws2'"
    and l': "length pc' = 8" "length lr' = 8"
    unfolding occurrence_def by blast
  obtain a where a: "lit ''PC=0x'' = 80 # a"
    by (simp add: lit_def)
  obtain b where b: "lit ''LR=0x'' = 76 # b"
    by (simp add: lit_def)
  have P: "\<not> isspace 80" and L: "\<not> isspace 76"
    by (simp_all add: isspace_def)
  from s s' have "ws1 @ 80 # (a @ pc @ ws2 @ lit ''LR=0x'' @ lr @ r) =
      ws1' @ 80 # (a @ pc' @ ws2' @ lit ''LR=0x'' @ lr' @ r')"
    by (simp add: a)
  from white_run_unique [OF w(1) w'(1) P this]
  have e1: "pc @ ws2 @ lit ''LR=0x'' @ lr @ r = pc' @ ws2' @ lit ''LR=0x'' @ lr' @ r'"
    by simp
  with l(1) l'(1) have pc: "pc = pc'"
    and e2: "ws2 @ 76 # (b @ lr @ r) = ws2' @ 76 # (b @ lr' @ r')"
    by (simp_all add: b)
  from white_run_unique [OF w(2) w'(2) L e2] l(2) l'(2) have "lr = lr' \<and> r = r'"
    by simp
  with pc show ?thesis by simp
qed

lemma match_at_iff:
  "(match_at s = Some (gs, r)) = (\<exists>pc lr. gs = [pc, lr] \<and> occurrence s pc lr r)"
proof
  assume "match_at s = Some (gs, r)"
  then show "\<exists>pc lr. gs = [pc, lr] \<and> occurrence s pc lr r"
    using match_at_mem in_submatches_pattern by blast
next
  assume "\<exists>pc lr. gs = [pc, lr] \<and> occurrence s pc lr r"
  then obtain pc lr where gs: "gs = [pc, lr]" and occ: "occurrence s pc lr r"
    by blast
  then have mem: "(gs, r) \<in> set (submatches pattern s)"
    by (simp add: in_submatches_pattern)
  then obtain m ms where ms: "submatches pattern s = m # ms"
    by (cases "submatches pattern s") auto
  obtain gs' r' where m: "m = (gs', r')"
    by (cases m)
  have "(gs', r') \<in> set (submatches pattern s)"
    by (simp add: ms m)
  then obtain pc' lr' where "gs' = [pc', lr']" "occurrence s pc' lr' r'"
    by (auto simp: in_submatches_pattern)
  with occ gs have "m = (gs, r)"
    using occurrence_unique m by blast
  then show "match_at s = Some (gs, r)"
    by (simp add: match_at_def ms)
qed

lemma occurrence_suffix:
  assumes "occurrence s pc lr r"
  shows "\<exists>m. s = m @ r"
  using assms unfolding occurrence_def by (metis append.assoc)

lemma finditer_matches:
  "gs \<in> set (finditer log_text) \<Longrightarrow>
     \<exists>before s r. log_text = before @ s \<and> match_at s = Some (gs, r)"
proof (induction log_text rule: finditer.induct)
  case 1
  then show ?case by simp
next
  case (2 c cs)
  show ?case
  proof (cases "match_at (c # cs)")
    case None
    with 2 obtain before s r where "cs = before @ s" "match_at s = Some (gs, r)"
      by auto
    then have "c # cs = (c # before) @ s \<and> match_at s = Some (gs, r)"
      by simp
    then show ?thesis by blast
  next
    case (Some m)
    obtain gs' rest where m: "m = (gs', rest)"
      by (cases m)
    from Some m obtain pc lr where "occurrence (c # cs) pc lr rest"
      by (auto simp: match_at_iff)
    then obtain mid where mid: "c # cs = mid @ rest"
      using occurrence_suffix by blast
    from 2(3) Some m consider "gs = gs'" | "gs \<in> set (finditer rest)"
      by auto
    then show ?thesis
    proof cases
      case 1
      with Some m have "c # cs = [] @ (c # cs) \<and> match_at (c # cs) = Some (gs, rest)"
        by simp
      then show ?thesis by blast
    next
      case 2
      with "2.IH"(2) [OF Some m [symmetric]] obtain before s r
        where "rest = before @ s" "match_at s = Some (gs, r)"
        by blast
      with mid have "c # cs = (mid @ before) @ s \<and> match_at s = Some (gs, r)"
        by simp
      then show ?thesis by blast
    qed
  qed
qed

section \<open>Parsing and formatting\<close>

lemma digit16_ishex: "ishex c \<Longrightarrow> digit16 c = Some (digit_value c)"
  by (auto simp: ishex_def digit16_def digit_value_def)

lemma digit_value_less: "ishex c \<Longrightarrow> digit_value c < 16"
  by (auto simp: ishex_def digit_value_def)

lemma hex_value_Nil: "hex_value [] = 0"
  by (simp add: hex_value_def)

lemma hex_value_Cons: "hex_value (c # s) = digit_value c * 16 ^ length s + hex_value s"
proof -
  have "[0..<length (c # s)] = 0 # map Suc [0..<length s]"
    by (simp add: upt_conv_Cons map_Suc_upt del: upt_Suc)
  then show ?thesis
    by (simp add: hex_value_def comp_def del: upt_Suc)
qed

lemma int16_from_hex:
  "list_all ishex s \<Longrightarrow> int16_from acc s = Inr (acc * 16 ^ length s + hex_value s)"
proof (induction s arbitrary: acc)
  case Nil
  then show ?case by (simp add: hex_value_Nil)
next
  case (Cons c s)
  then show ?case
    by (simp add: digit16_ishex hex_value_Cons algebra_simps)
qed

lemma hex_value_less: "list_all ishex s \<Longrightarrow> hex_value s < 16 ^ length s"
proof (induction s)
  case Nil
  then show ?case by (simp add: hex_value_Nil)
next
  case (Cons c s)
  then have "digit_value c \<le> 15" and "hex_value s < 16 ^ length s"
    using digit_value_less [of c] by simp_all
  then have "digit_value c * 16 ^ length s + hex_value s < 15 * 16 ^ length s + 16 ^ length s"
    by (meson add_le_less_mono mult_le_mono1)
  then show ?case
    by (simp add: hex_value_Cons)
qed

lemma int16_group:
  assumes "length s = 8" "list_all ishex s"
  shows "int16 s = Inr (hex_value s)" and "hex_value s < 2 ^ 32"
proof -
  from assms(1) have "s \<noteq> []" by auto
  then show "int16 s = Inr (hex_value s)"
    using assms(2) by (simp add: int16_def int16_from_hex)
  have "hex_value s < 16 ^ 8"
    using hex_value_less [OF assms(2)] assms(1) by simp
  then show "hex_value s < 2 ^ 32" by simp
qed

lemma int16_from_append:
  "int16_from acc (xs @ ys) =
     (case int16_from acc xs of Inl e \<Rightarrow> Inl e | Inr v \<Rightarrow> int16_from v ys)"
  by (induction xs arbitrary: acc) (auto split: option.splits)

lemma digit16_upper_digit: "d < 16 \<Longrightarrow> digit16 (upper_digit d) = Some d"
  by (auto simp: digit16_def upper_digit_def)

lemma is_upper_hex_upper_digit: "d < 16 \<Longrightarrow> is_upper_hex (upper_digit d)"
  by (auto simp: is_upper_hex_def upper_digit_def)

lemma int16_from_hex_upper:
  "int16_from acc (hex_upper n) = Inr (acc * 16 ^ length (hex_upper n) + n)"
proof (induction n arbitrary: acc rule: hex_upper.induct)
  case (1 n)
  show ?case
  proof (cases "n < 16")
    case True
    then show ?thesis
      by (subst (1 2) hex_upper.simps) (simp add: digit16_upper_digit)
  next
    case False
    have "int16_from acc (hex_upper (n div 16) @ [upper_digit (n mod 16)]) =
        Inr (16 * (acc * 16 ^ length (hex_upper (n div 16)) + n div 16) + n mod 16)"
      using False by (simp add: int16_from_append "1.IH" digit16_upper_digit)
    moreover have "hex_upper n = hex_upper (n div 16) @ [upper_digit (n mod 16)]"
      using False by (subst hex_upper.simps) simp
    ultimately show ?thesis
      by (simp add: algebra_simps)
  qed
qed

lemma int16_from_zeros: "int16_from 0 (replicate k 48 @ s) = int16_from 0 s"
  by (induction k) (simp_all add: digit16_def)

lemma hex_upper_not_Nil: "hex_upper n \<noteq> []"
  by (subst hex_upper.simps) simp

lemma int16_format_08X: "int16 (format_08X addr) = Inr addr"
  by (simp add: int16_def format_08X_def hex_upper_not_Nil int16_from_zeros
      int16_from_hex_upper)

lemma length_hex_upper: "0 < k \<Longrightarrow> n < 16 ^ k \<Longrightarrow> length (hex_upper n) \<le> k"
proof (induction n arbitrary: k rule: hex_upper.induct)
  case (1 n)
  show ?case
  proof (cases "n < 16")
    case True
    then show ?thesis
      using "1.prems" by (subst hex_upper.simps) simp
  next
    case False
    with "1.prems" obtain j where k: "k = Suc j"
      by (cases k) auto
    with False "1.prems" have j: "0 < j"
      by (cases j) auto
    from "1.prems" k have "n div 16 < 16 ^ j"
      by (simp add: less_mult_imp_div_less mult.commute)
    with "1.IH" [OF False j] have "length (hex_upper (n div 16)) \<le> j" .
    then show ?thesis
      using False k by (subst hex_upper.simps) simp
  qed
qed

lemma length_format_08X: "addr < 2 ^ 32 \<Longrightarrow> length (format_08X addr) = 8"
proof -
  assume "addr < 2 ^ 32"
  then have "addr < 16 ^ 8" by simp
  then have "length (hex_upper addr) \<le> 8"
    by (intro length_hex_upper) simp_all
  then show ?thesis
    by (simp add: format_08X_def)
qed

lemma hex_upper_digits: "list_all is_upper_hex (hex_upper n)"
proof (induction n rule: hex_upper.induct)
  case (1 n)
  show ?case
  proof (cases "n < 16")
    case True
    then show ?thesis
      by (subst hex_upper.simps) (simp add: is_upper_hex_upper_digit)
  next
    case False
    then show ?thesis
      using "1.IH" by (subst hex_upper.simps) (simp add: is_upper_hex_upper_digit)
  qed
qed

lemma format_08X_digits: "list_all is_upper_hex (format_08X addr)"
proof -
  have "list_all is_upper_hex (replicate k 48)" for k
    by (induction k) (simp_all add: is_upper_hex_def)
  then show ?thesis
    by (simp add: format_08X_def hex_upper_digits)
qed

section \<open>From the log to the list of addresses\<close>

lemma finditer_groups:
  assumes "gs \<in> set (finditer log_text)"
  shows "\<exists>pc lr. gs = [pc, lr] \<and> length pc = 8 \<and> list_all ishex pc \<and>
    length lr = 8 \<and> list_all ishex lr"
proof -
  from finditer_matches [OF assms] obtain s r where "match_at s = Some (gs, r)"
    by blast
  then obtain pc lr where "gs = [pc, lr]" "occurrence s pc lr r"
    by (auto simp: match_at_iff)
  then show ?thesis
    unfolding occurrence_def by blast
qed

lemma collect_groups:
  assumes "\<forall>gs\<in>set ms. \<exists>pc lr. gs = [pc, lr] \<and> length pc = 8 \<and> list_all ishex pc \<and>
    length lr = 8 \<and> list_all ishex lr"
  shows "collect ms addrs = Inr (addrs @ concat (map (map hex_value) ms))"
  using assms
proof (induction ms arbitrary: addrs)
  case Nil
  then show ?case by simp
next
  case (Cons gs ms)
  then obtain pc lr where gs: "gs = [pc, lr]" and pc: "length pc = 8" "list_all ishex pc"
    and lr: "length lr = 8" "list_all ishex lr"
    by auto
  have "collect (gs # ms) addrs = collect ms (addrs @ [hex_value pc] @ [hex_value lr])"
    by (simp add: gs int16_group(1) [OF pc] int16_group(1) [OF lr])
  also have "\<dots> = Inr ((addrs @ [hex_value pc] @ [hex_value lr]) @ concat (map (map hex_value) ms))"
    using Cons.prems by (intro Cons.IH) simp
  finally show ?case
    by (simp add: gs)
qed

lemma collect_finditer:
  "collect (finditer log_text) [] = Inr (concat (map (map hex_value) (finditer log_text)))"
  using collect_groups [of "finditer log_text" "[]"] finditer_groups by simp

lemma unique_addrs_of_eq:
  "unique_addrs_of log_text =
     Inr (first_occurrences (concat (map (map hex_value) (finditer log_text))))"
  by (simp add: unique_addrs_of_def collect_finditer dedup_first_occurrences)

lemma unique_addrs_bound:
  assumes "unique_addrs_of log_text = Inr unique_addrs" "a \<in> set unique_addrs"
  shows "a < 2 ^ 32"
proof -
  from assms have "a \<in> set (dedup (concat (map (map hex_value) (finditer log_text))) {} [])"
    by (simp add: unique_addrs_of_def collect_finditer)
  then obtain gs s where gs: "gs \<in> set (finditer log_text)" and s: "s \<in> set gs"
    and a: "a = hex_value s"
    by (auto simp: dedup_set)
  from finditer_groups [OF gs] s have "length s = 8" "list_all ishex s"
    by auto
  then show ?thesis
    unfolding a by (rule int16_group(2))
qed

lemma address_sequence_eq:
  "address_sequence log_text = concat (map (map hex_value) (finditer log_text))"
proof -
  have "map (\<lambda>groups. [hex_value (groups ! 0), hex_value (groups ! 1)]) (finditer log_text) =
      map (map hex_value) (finditer log_text)"
  proof (rule map_cong [OF refl])
    fix gs
    assume "gs \<in> set (finditer log_text)"
    from finditer_groups [OF this] obtain pc lr where "gs = [pc, lr]"
      by blast
    then show "[hex_value (gs ! 0), hex_value (gs ! 1)] = map hex_value gs"
      by simp
  qed
  then show ?thesis
    by (simp only: address_sequence_def)
qed

lemma unique_addrs_of_sequence:
  "unique_addrs_of log_text = Inr (first_occurrences (address_sequence log_text))"
  by (simp add: unique_addrs_of_eq address_sequence_eq)


lemma first_occurrences_set: "set (first_occurrences xs) = set xs"
  using dedup_set [of xs "{}"] by (simp add: dedup_first_occurrences)





lemma ishex_not_isspace: "ishex c \<Longrightarrow> \<not> isspace c"
  by (auto simp: ishex_def isspace_def)

section \<open>The report and the exit status\<close>





lemma unique_addrs_of_Nil: "(unique_addrs_of log_text = Inr []) = (finditer log_text = [])"
proof -
  have "(first_occurrences (address_sequence log_text) = []) = (finditer log_text = [])"
  proof
    assume "first_occurrences (address_sequence log_text) = []"
    then have "set (address_sequence log_text) = {}"
      using first_occurrences_set [of "address_sequence log_text"] by simp
    then show "finditer log_text = []"
      by (cases "finditer log_text") (simp_all add: address_sequence_def)
  next
    assume "finditer log_text = []"
    then show "first_occurrences (address_sequence log_text) = []"
      by (simp add: address_sequence_def first_occurrences_def)
  qed
  then show ?thesis
    by (simp add: unique_addrs_of_sequence)
qed


lemma main_no_elf:
  assumes "\<not> is_file w (path_str w arg1)"
  shows "main w prog [arg1, arg2] =
    (Returned 1, print_err (lit ''ELF not found: '' @ path_str w arg1) no_effects)"
  using assms by (simp add: main_def)


lemma main_no_matches:
  assumes "is_file w (path_str w arg1)" "is_file w (path_str w arg2)"
    and "finditer (read_text w (path_str w arg2)) = []"
  shows "main w prog [arg1, arg2] =
    (Returned 0,
     print_err (lit ''No HF_ADDR lines found in log.'')
       (no_effects\<lparr>files_read := [path_str w arg2]\<rparr>))"
proof -
  have "unique_addrs_of (read_text w (path_str w arg2)) = Inr []"
    using assms(3) by (simp add: unique_addrs_of_Nil)
  then show ?thesis
    using assms(1,2) by (simp add: main_def)
qed




section \<open>Where the pattern matches\<close>

lemma occurrence_append:
  assumes "occurrence s pc lr []"
  shows "occurrence (s @ t) pc lr t"
  using assms unfolding occurrence_def by auto

lemma match_at_long_pc:
  assumes "list_all isspace ws" "length pc = 8" "ishex c"
  shows "match_at (lit ''HF_ADDR'' @ ws @ lit ''PC=0x'' @ pc @ c # t) = None"
proof (rule ccontr)
  let ?s = "lit ''HF_ADDR'' @ ws @ lit ''PC=0x'' @ pc @ c # t"
  assume "match_at ?s \<noteq> None"
  then obtain gs r where "match_at ?s = Some (gs, r)"
    by auto
  then obtain pc' lr where "occurrence ?s pc' lr r"
    by (auto simp: match_at_iff)
  then obtain ws1 ws2 where
    eq: "?s = lit ''HF_ADDR'' @ ws1 @ lit ''PC=0x'' @ pc' @ ws2 @ lit ''LR=0x'' @ lr @ r"
    and ws1: "list_all isspace ws1" and pc': "length pc' = 8"
    and ws2: "ws2 \<noteq> []" "list_all isspace ws2"
    unfolding occurrence_def by blast
  obtain a where a: "lit ''PC=0x'' = 80 # a"
    by (simp add: lit_def)
  have P: "\<not> isspace 80"
    by (simp add: isspace_def)
  from eq have "ws @ 80 # (a @ pc @ c # t) =
      ws1 @ 80 # (a @ pc' @ ws2 @ lit ''LR=0x'' @ lr @ r)"
    by (simp add: a)
  from white_run_unique [OF assms(1) ws1 P this]
  have "pc @ c # t = pc' @ ws2 @ lit ''LR=0x'' @ lr @ r"
    by simp
  with assms(2) pc' have "c # t = ws2 @ lit ''LR=0x'' @ lr @ r"
    by simp
  with ws2 have "isspace c"
    by (cases ws2) auto
  with assms(3) show False
    by (simp add: ishex_not_isspace)
qed

section \<open>Sample runs\<close>

text \<open>The definitions that a run on a concrete text unfolds.\<close>

lemmas eval_defs = lit_def match_at_def pattern_def isspace_def ishex_def int16_def digit16_def

lemma sample_world_simps:
  "path_str (sample_world files log_text) a = a"
  "is_file (sample_world files log_text) p = (p \<in> set files)"
  "read_text (sample_world files log_text) p = log_text"
  "check_output (sample_world files log_text) c \<noteq> NotStarted"
  by (simp_all add: sample_world_def)




section \<open>The claims\<close>





text \<open>
  C3, as amended. The match at a position is exactly an occurrence there: the token
  \<open>HF_ADDR\<close>, white space, \<open>PC=0x\<close> and 8 hexadecimal digits, white space, \<open>LR=0x\<close> and
  8 hexadecimal digits; and every match of the scan is such an occurrence somewhere in the
  text. A program counter field with a ninth hexadecimal digit is not matched. The
  pattern ends with the eighth digit of the link register field, so whatever text follows
  an occurrence, further hexadecimal digits included, the occurrence is matched, with the
  first 8 digits as the link register.
\<close>

theorem match_shape:
  "(match_at s = Some (groups, rest)) =
     (\<exists>pc lr. groups = [pc, lr] \<and> occurrence s pc lr rest) \<and>
   (groups \<in> set (finditer log_text) \<longrightarrow>
     (\<exists>before s' rest' pc lr.
        log_text = before @ s' \<and> groups = [pc, lr] \<and> occurrence s' pc lr rest')) \<and>
   (list_all isspace ws \<and> length long_pc = 8 \<and> ishex c \<longrightarrow>
     match_at (lit ''HF_ADDR'' @ ws @ lit ''PC=0x'' @ long_pc @ c # t) = None) \<and>
   (occurrence u pc_u lr_u [] \<longrightarrow> match_at (u @ v) = Some ([pc_u, lr_u], v))"
proof -
  have "\<exists>before s' rest' pc lr.
      log_text = before @ s' \<and> groups = [pc, lr] \<and> occurrence s' pc lr rest'"
    if "groups \<in> set (finditer log_text)"
  proof -
    from finditer_matches [OF that] obtain before s' rest'
      where "log_text = before @ s'" "match_at s' = Some (groups, rest')"
      by blast
    then show ?thesis
      by (simp add: match_at_iff) blast
  qed
  moreover have "match_at (u @ v) = Some ([pc_u, lr_u], v)" if "occurrence u pc_u lr_u []"
    using occurrence_append [OF that] by (simp add: match_at_iff)
  ultimately show ?thesis
    by (simp add: match_at_iff match_at_long_pc)
qed

theorem match_shape_witness:
  "match_at (lit ''HF_ADDR PC=0x08001234 LR=0x08000F00'') =
     Some ([lit ''08001234'', lit ''08000F00''], []) \<and>
   occurrence (lit ''HF_ADDR PC=0x08001234 LR=0x08000F00'') (lit ''08001234'')
     (lit ''08000F00'') [] \<and>
   match_at (lit ''HF_ADDR PC=0x080012345 LR=0x08000F00'') = None \<and>
   match_at (lit ''HF_ADDR PC=0x08001234 LR=0x08000F00'' @ lit ''AB'') =
     Some ([lit ''08001234'', lit ''08000F00''], lit ''AB'')"
proof -
  let ?s = "lit ''HF_ADDR PC=0x08001234 LR=0x08000F00''"
  note th = match_shape [where s = ?s and groups = "[lit ''08001234'', lit ''08000F00'']"
      and rest = "[]" and log_text = ?s and ws = "[32]" and long_pc = "lit ''08001234''"
      and c = 53 and t = "lit '' LR=0x08000F00''" and u = ?s and pc_u = "lit ''08001234''"
      and lr_u = "lit ''08000F00''" and v = "lit ''AB''"]
  have m: "match_at ?s = Some ([lit ''08001234'', lit ''08000F00''], [])"
    by (simp add: eval_defs)
  with th have occ: "occurrence ?s (lit ''08001234'') (lit ''08000F00'') []"
    by simp
  have "list_all isspace [32] \<and> length (lit ''08001234'') = 8 \<and> ishex 53"
    by (simp add: isspace_def ishex_def lit_def)
  with th have "match_at (lit ''HF_ADDR'' @ [32] @ lit ''PC=0x'' @ lit ''08001234'' @
      53 # lit '' LR=0x08000F00'') = None"
    by blast
  moreover have "lit ''HF_ADDR'' @ [32] @ lit ''PC=0x'' @ lit ''08001234'' @
      53 # lit '' LR=0x08000F00'' = lit ''HF_ADDR PC=0x080012345 LR=0x08000F00''"
    by (simp add: lit_def)
  ultimately have n: "match_at (lit ''HF_ADDR PC=0x080012345 LR=0x08000F00'') = None"
    by simp
  from th occ have "match_at (?s @ lit ''AB'') =
      Some ([lit ''08001234'', lit ''08000F00''], lit ''AB'')"
    by blast
  with m occ n show ?thesis
    by simp
qed

text \<open>
  C3 as stated denies a match to a link register field of more than 8 hexadecimal
  digits. With the 9 digits \<open>08000F001\<close> the text is matched, and the link register is
  \<open>08000F00\<close>.
\<close>

theorem long_lr_field_counterexample:
  "ishex 49 \<and> lit ''1'' = [49] \<and>
   match_at (lit ''HF_ADDR PC=0x08001234 LR=0x08000F001'') =
     Some ([lit ''08001234'', lit ''08000F00''], lit ''1'') \<and>
   finditer (lit ''HF_ADDR PC=0x08001234 LR=0x08000F001'') =
     [[lit ''08001234'', lit ''08000F00'']]"
  by (simp add: eval_defs)






text \<open>
  C6. When the list of addresses is empty, the log has no match, the program prints the
  notice to the error stream and nothing to standard output, runs no resolver, and returns
  0.
\<close>

theorem no_addresses_found:
  assumes "is_file w (path_str w arg1)" "is_file w (path_str w arg2)"
    and "unique_addrs_of (read_text w (path_str w arg2)) = Inr []"
  shows "finditer (read_text w (path_str w arg2)) = [] \<and>
    main w prog [arg1, arg2] =
      (Returned 0,
       \<lparr>stdout = [], stderr = lit ''No HF_ADDR lines found in log.'' @ [10],
        files_read = [path_str w arg2], commands = []\<rparr>)"
proof -
  have "finditer (read_text w (path_str w arg2)) = []"
    using assms(3) by (simp add: unique_addrs_of_Nil)
  then show ?thesis
    using assms(1,2) by (simp add: main_no_matches print_err_def no_effects_def)
qed

theorem no_addresses_found_witness:
  "main (sample_world [lit ''fw.elf'', lit ''hf.log''] (lit ''boot ok'' @ [10] @ lit ''HF_ADDR''))
     (lit ''hf_addr2line.py'') [lit ''fw.elf'', lit ''hf.log''] =
     (Returned 0,
      \<lparr>stdout = [], stderr = lit ''No HF_ADDR lines found in log.'' @ [10],
       files_read = [lit ''hf.log''], commands = []\<rparr>)"
proof -
  let ?w = "sample_world [lit ''fw.elf'', lit ''hf.log''] (lit ''boot ok'' @ [10] @ lit ''HF_ADDR'')"
  have "unique_addrs_of (lit ''boot ok'' @ [10] @ lit ''HF_ADDR'') = Inr []"
    by (simp add: unique_addrs_of_def eval_defs)
  then have "is_file ?w (path_str ?w (lit ''fw.elf''))" "is_file ?w (path_str ?w (lit ''hf.log''))"
    "unique_addrs_of (read_text ?w (path_str ?w (lit ''hf.log''))) = Inr []"
    by (simp_all add: sample_world_simps)
  from no_addresses_found [OF this, of "lit ''hf_addr2line.py''"] show ?thesis
    by (simp add: sample_world_simps)
qed

text \<open>
  C7. Every address of the list is below \<open>2\<^sup>3\<^sup>2\<close>. The format \<open>08X\<close> gives it as exactly
  8 upper-case hexadecimal digits, and parsing these in base 16 gives the address back.
\<close>

theorem addresses_are_32_bit:
  assumes "unique_addrs_of log_text = Inr unique_addrs" and "addr \<in> set unique_addrs"
  shows "addr < 2 ^ 32 \<and> length (format_08X addr) = 8 \<and>
    list_all is_upper_hex (format_08X addr) \<and> int16 (format_08X addr) = Inr addr"
  using unique_addrs_bound [OF assms]
  by (simp add: length_format_08X format_08X_digits int16_format_08X)

theorem addresses_are_32_bit_witness:
  "unique_addrs_of (lit ''HF_ADDR PC=0x08001234 LR=0x08000F00'') = Inr [134222388, 134221568] \<and>
   (134221568 :: nat) < 2 ^ 32 \<and> format_08X 134221568 = lit ''08000F00'' \<and>
   int16 (lit ''08000F00'') = Inr 134221568"
proof -
  have u: "unique_addrs_of (lit ''HF_ADDR PC=0x08001234 LR=0x08000F00'') =
      Inr [134222388, 134221568]"
    by (simp add: unique_addrs_of_def eval_defs)
  have f: "format_08X 134221568 = lit ''08000F00''"
    by (simp add: format_08X_def hex_upper.simps upper_digit_def lit_def)
  from addresses_are_32_bit [OF u, of 134221568] f u show ?thesis
    by simp
qed

text \<open>
  C8. De-duplication is idempotent: de-duplicating a de-duplicated sequence leaves it
  unchanged, and so does de-duplicating the list of addresses that the program computes
  from a log. (The list is a function of the text of the log alone, so that two runs on
  the same text give the same list.)
\<close>

theorem extraction_dedup_idempotent:
  "dedup (dedup addrs {} []) {} [] = dedup addrs {} [] \<and>
   (unique_addrs_of log_text = Inr unique_addrs \<longrightarrow> dedup unique_addrs {} [] = unique_addrs)"
proof -
  have "dedup (dedup xs {} []) {} [] = dedup xs {} []" for xs
    by (rule dedup_of_distinct) (simp_all add: dedup_distinct)
  then show ?thesis
    by (auto simp: unique_addrs_of_def split: sum.splits)
qed

theorem extraction_dedup_idempotent_witness:
  "dedup (dedup [7, 3, 7, 7, 3] {} []) {} [] = [7, 3] \<and>
   unique_addrs_of (lit ''HF_ADDR PC=0x08001234 LR=0x08000F00'') = Inr [134222388, 134221568] \<and>
   dedup [134222388, 134221568] {} [] = [134222388, 134221568]"
proof -
  have u: "unique_addrs_of (lit ''HF_ADDR PC=0x08001234 LR=0x08000F00'') =
      Inr [134222388, 134221568]"
    by (simp add: unique_addrs_of_def eval_defs)
  have d: "dedup [7, 3, 7, 7, 3] {} [] = [7, 3]"
    by simp
  from extraction_dedup_idempotent
    [of "[7, 3, 7, 7, 3]" "lit ''HF_ADDR PC=0x08001234 LR=0x08000F00''" "[134222388, 134221568]"]
    u d show ?thesis
    by simp
qed

text \<open>
  C9. The line feed is white space for the pattern: a text in which line feeds separate
  the token \<open>HF_ADDR\<close>, the program counter field and the link register field has a
  match, which spans three lines.
\<close>

theorem whitespace_accepts_newlines:
  "isspace 10 \<and>
   finditer (lit ''HF_ADDR'' @ [10] @ lit ''PC=0x08001234'' @ [10] @ lit ''LR=0x08000F00'') =
     [[lit ''08001234'', lit ''08000F00'']] \<and>
   unique_addrs_of
     (lit ''HF_ADDR'' @ [10] @ lit ''PC=0x08001234'' @ [10] @ lit ''LR=0x08000F00'') =
     Inr [134222388, 134221568]"
  by (simp add: unique_addrs_of_def eval_defs)

text \<open>
  C10. The first path is checked first: when it is not a regular file, whether the second
  is one or not, \<open>main\<close> returns 1, the error stream holds the diagnostic of the ELF file
  alone, nothing is written to standard output, and no file is read.
\<close>

theorem elf_checked_first:
  assumes "\<not> is_file w (path_str w arg1)"
  shows "main w prog [arg1, arg2] =
    (Returned 1,
     \<lparr>stdout = [], stderr = lit ''ELF not found: '' @ path_str w arg1 @ [10],
      files_read = [], commands = []\<rparr>)"
  using assms by (simp add: main_no_elf print_err_def no_effects_def)

theorem elf_checked_first_witness:
  "\<not> is_file (sample_world [] []) (lit ''hf.log'') \<and>
   main (sample_world [] []) (lit ''hf_addr2line.py'') [lit ''fw.elf'', lit ''hf.log''] =
     (Returned 1,
      \<lparr>stdout = [], stderr = lit ''ELF not found: fw.elf'' @ [10],
       files_read = [], commands = []\<rparr>)"
proof -
  let ?w = "sample_world [] []"
  have "\<not> is_file ?w (path_str ?w (lit ''fw.elf''))"
    by (simp add: sample_world_simps)
  from elf_checked_first [OF this, of "lit ''hf_addr2line.py''" "lit ''hf.log''"]
  show ?thesis
    by (simp add: sample_world_simps) (simp add: lit_def)
qed

end
